theory Spec2Isabelle
  imports Main "HOL-Library.Word"
begin

section \<open>The in-memory cache of \<open>memory/memory.go\<close>\<close>

text \<open>
  The package keeps a map from string keys to \<open>Elem\<close> values, a capacity, a size counter,
  a reader/writer mutex and a \<open>sync.Pool\<close>. The model below follows the source function
  by function. Three things the Go runtime decides are made explicit arguments of the
  operations that depend on them:
  \<^item> each reading of the clock (\<open>time.Now().UnixNano()\<close>) is an \<open>int64\<close> argument, one
    argument per reading, in the order of the source;
  \<^item> what \<open>sync.Pool.Get\<close> hands out is chosen by a \<open>nat option\<close>: \<open>None\<close> for \<open>nil\<close>,
    \<open>Some i\<close> for the \<open>i\<close>-th pooled item (\<open>nil\<close> when there is no such item);
  \<^item> the order in which \<open>range\<close> visits a map is a list of keys.
  A call either returns, panics, or blocks for ever on the mutex; every operation gives
  the cache as the call leaves it together with that outcome.
\<close>

subsection \<open>Data\<close>

type_synonym int64 = "64 word"

text \<open>\<open>error\<close> values are never built by this package; every error result is \<open>nil\<close>.\<close>

type_synonym error = string

text \<open>
  \<open>type Elem struct { K string; V any; Expiration int64; LastHit int64 }\<close>.
  A value of type \<open>any\<close> is \<open>None\<close> for \<open>nil\<close> and \<open>Some v\<close> otherwise.
\<close>

record 'v Elem =
  K :: string
  V :: "'v option"
  Expiration :: int64
  LastHit :: int64

text \<open>
  A non-nil interface value taken from or given to the pool: its dynamic type is either
  \<open>*Elem\<close> (with the \<open>Elem\<close> it points to, which nothing writes through) or \<open>Elem\<close>.
\<close>

datatype 'v iface = PtrElem "'v Elem" | ValElem "'v Elem"

text \<open>
  \<open>sync.RWMutex\<close> as seen by one goroutine after another: free, held by a writer, or
  held by a number of readers.
\<close>

datatype rwmutex = Free | Writer | Readers nat

text \<open>
  \<open>type Cache struct\<close>; the \<open>cleaner\<close> field belongs to the background goroutine and is
  left out.
\<close>

record 'v Cache =
  defaultExpiration :: int64
  elements :: "string \<rightharpoonup> 'v Elem"
  capacity :: int64
  size_n :: int64
  lock :: rwmutex
  pool :: "'v iface list"

datatype 'a outcome = Returns 'a | Panics | Blocks

definition DEFAULT_EXPIRATION :: int64 where
  "DEFAULT_EXPIRATION = 600000000000"

definition DEFAULT_CLEAN_DURATION :: int64 where
  "DEFAULT_CLEAN_DURATION = 600000000000"

definition DEFAULT_CAP :: int64 where
  "DEFAULT_CAP = 1024"

definition DEFAULT_LRU_CLEAN_SIZE :: nat where
  "DEFAULT_LRU_CLEAN_SIZE = 20"

subsection \<open>The mutex and the pool\<close>

text \<open>\<open>Lock\<close> and \<open>RLock\<close> give \<open>None\<close> when the caller would wait for ever.\<close>

fun Lock :: "rwmutex \<Rightarrow> rwmutex option" where
  "Lock Free = Some Writer"
| "Lock Writer = None"
| "Lock (Readers n) = None"

fun Unlock :: "rwmutex \<Rightarrow> rwmutex" where
  "Unlock l = Free"

fun RLock :: "rwmutex \<Rightarrow> rwmutex option" where
  "RLock Free = Some (Readers 1)"
| "RLock Writer = None"
| "RLock (Readers n) = Some (Readers (Suc n))"

fun RUnlock :: "rwmutex \<Rightarrow> rwmutex" where
  "RUnlock (Readers (Suc (Suc n))) = Readers (Suc n)"
| "RUnlock l = Free"

text \<open>
  \<open>sync.Pool.Get\<close> removes an arbitrary item and returns it, or returns \<open>nil\<close> (the pool
  has no \<open>New\<close> function). \<open>sync.Pool.Put\<close> adds the item. The runtime may drop pooled
  items at any time; an item it has dropped is one that no later choice picks.
\<close>

definition pool_Get :: "'v iface list \<Rightarrow> nat option \<Rightarrow> 'v iface option \<times> 'v iface list" where
  "pool_Get p pick =
     (case pick of
        None \<Rightarrow> (None, p)
      | Some i \<Rightarrow> if i < length p then (Some (p ! i), take i p @ drop (Suc i) p) else (None, p))"

definition pool_Put :: "'v iface list \<Rightarrow> 'v iface \<Rightarrow> 'v iface list" where
  "pool_Put p x = x # p"

subsection \<open>Get\<close>

text \<open>
  The first lines of \<open>Get\<close>: \<open>if item, ok := ele.(Elem); ok { if item.K == key { return item.V, nil } }\<close>.
  The result is \<open>Some\<close> of the returned value when that \<open>return\<close> is taken.
\<close>

definition Get_pooled :: "'v iface option \<Rightarrow> string \<Rightarrow> 'v option option" where
  "Get_pooled ele key =
     (case ele of
        Some (ValElem item) \<Rightarrow> if K item = key then Some (V item) else None
      | Some (PtrElem q) \<Rightarrow> None
      | None \<Rightarrow> None)"

text \<open>
  \<open>ele, ok := c.elements[key]\<close> copies the map's \<open>Elem\<close>; the two assignments change the
  copy, which is dropped on return.
\<close>

definition Get :: "'v Cache \<Rightarrow> nat option \<Rightarrow> int64 \<Rightarrow> int64 \<Rightarrow> string \<Rightarrow> 'v Cache \<times> 'v option outcome" where
  "Get c pick now1 now2 key =
     (let (ele, p) = pool_Get (pool c) pick;
          c1 = c\<lparr>pool := p\<rparr>
      in case Get_pooled ele key of
           Some v \<Rightarrow> (c1, Returns v)
         | None \<Rightarrow>
             (let expire = now1 + DEFAULT_EXPIRATION;
                  lastHit = now2
              in case RLock (lock c1) of
                   None \<Rightarrow> (c1, Blocks)
                 | Some l \<Rightarrow>
                     (case elements c1 key of
                        Some e \<Rightarrow>
                          (let ele = e\<lparr>Expiration := expire, LastHit := lastHit\<rparr>
                           in (c1\<lparr>lock := RUnlock l\<rparr>, Returns (V ele)))
                      | None \<Rightarrow> (c1\<lparr>lock := RUnlock l\<rparr>, Returns None))))"

subsection \<open>Put, update and removeLeastVisited\<close>

text \<open>
  \<open>update\<close> too works on a copy of the map's \<open>Elem\<close>: it reports whether the key is
  present and leaves the cache as it was.
\<close>

definition update :: "'v Cache \<Rightarrow> string \<Rightarrow> 'v option \<Rightarrow> int64 \<Rightarrow> int64 \<Rightarrow> 'v Cache \<times> bool" where
  "update c k v expire lastHit =
     (case elements c k of
        Some e \<Rightarrow>
          (let ele = e\<lparr>V := v, Expiration := expire, LastHit := lastHit\<rparr>
           in (c, True))
      | None \<Rightarrow> (c, False))"

text \<open>The local variables of the scan in \<open>removeLeastVisited\<close>.\<close>

record scan =
  lastTime :: int64
  lastItems :: "string list"
  liCount :: nat
  full :: bool

text \<open>
  \<open>var lastTime int64 = 1<<(bits.UintSize-1) - 1\<close> (on a 64-bit platform),
  \<open>lastItems := make([]string, DEFAULT_LRU_CLEAN_SIZE)\<close>, \<open>liCount := 0\<close>, \<open>full := false\<close>.
\<close>

definition scan_init :: scan where
  "scan_init =
     \<lparr>lastTime = 9223372036854775807,
      lastItems = replicate DEFAULT_LRU_CLEAN_SIZE [],
      liCount = 0,
      full = False\<rparr>"

text \<open>
  One round of \<open>for k, v := range c.elements\<close> at key \<open>k\<close>. A key of the visiting order
  that the map does not hold is passed over.
\<close>

definition scan_step :: "int64 \<Rightarrow> (string \<rightharpoonup> 'v Elem) \<Rightarrow> scan \<Rightarrow> string \<Rightarrow> scan" where
  "scan_step t m s k =
     (case m k of
        None \<Rightarrow> s
      | Some v \<Rightarrow>
          if t <s Expiration v then
            (let atime = LastHit v in
             if \<not> full s \<or> atime <s lastTime s then
               (let s1 = s\<lparr>lastTime := atime\<rparr> in
                if liCount s1 < DEFAULT_LRU_CLEAN_SIZE
                then s1\<lparr>lastItems := (lastItems s1)[liCount s1 := k], liCount := liCount s1 + 1\<rparr>
                else s1\<lparr>lastItems := (lastItems s1)[0 := k], liCount := 1, full := True\<rparr>)
             else s)
          else s)"

text \<open>
  \<open>for i := 0; i < len(lastItems) && lastItems[i] != ""; i++ { delete(c.elements, lastItems[i]) }\<close>
\<close>

fun delete_items :: "string list \<Rightarrow> (string \<rightharpoonup> 'e) \<Rightarrow> (string \<rightharpoonup> 'e)" where
  "delete_items [] m = m"
| "delete_items (lastName # rest) m =
     (if lastName = [] then m else delete_items rest (m(lastName := None)))"

definition removeLeastVisited :: "'v Cache \<Rightarrow> int64 \<Rightarrow> string list \<Rightarrow> 'v Cache \<times> error option outcome" where
  "removeLeastVisited c t order =
     (case Lock (lock c) of
        None \<Rightarrow> (c, Blocks)
      | Some l \<Rightarrow>
          (let s = foldl (scan_step t (elements c)) scan_init order
           in (c\<lparr>elements := delete_items (lastItems s) (elements c), lock := Unlock l\<rparr>,
               Returns None)))"

text \<open>
  \<open>Put\<close> reads the clock twice, \<open>removeLeastVisited\<close> once more (\<open>now3\<close>); \<open>order\<close> is
  the order of the eviction scan.
\<close>

definition Put :: "'v Cache \<Rightarrow> int64 \<Rightarrow> int64 \<Rightarrow> int64 \<Rightarrow> string list \<Rightarrow> string \<Rightarrow> 'v option
    \<Rightarrow> 'v Cache \<times> error option outcome" where
  "Put c now1 now2 now3 order key val =
     (let expire = now1 + DEFAULT_EXPIRATION;
          lastHit = now2
      in case (if capacity c <s size_n c + 1 then removeLeastVisited c now3 order
               else (c, Returns None)) of
           (c1, Blocks) \<Rightarrow> (c1, Blocks)
         | (c1, Panics) \<Rightarrow> (c1, Panics)
         | (c1, Returns (Some err)) \<Rightarrow> (c1, Returns (Some err))
         | (c1, Returns None) \<Rightarrow>
             (case Lock (lock c1) of
                None \<Rightarrow> (c1, Blocks)
              | Some l \<Rightarrow>
                  (let (c2, found) = update (c1\<lparr>lock := l\<rparr>) key val expire lastHit
                   in if found then (c2\<lparr>lock := Unlock l\<rparr>, Returns None)
                      else
                        (let ele = \<lparr>K = [], V = val, Expiration = expire, LastHit = lastHit\<rparr>
                         in (c2\<lparr>pool := pool_Put (pool c2) (PtrElem ele),
                                 elements := (elements c2)(key \<mapsto> ele),
                                 size_n := size_n c2 + 1,
                                 lock := Unlock l\<rparr>,
                             Returns None)))))"

subsection \<open>Remove, Flush and RemoveExpired\<close>

text \<open>
  \<open>for k := range c.elements { if k == key { delete(c.elements, key); return true, nil } }\<close>
\<close>

fun Remove_scan :: "string list \<Rightarrow> string \<Rightarrow> (string \<rightharpoonup> 'e) \<Rightarrow> (string \<rightharpoonup> 'e) \<times> bool" where
  "Remove_scan [] key m = (m, False)"
| "Remove_scan (k # ks) key m =
     (case m k of
        None \<Rightarrow> Remove_scan ks key m
      | Some e \<Rightarrow> if k = key then (m(key := None), True) else Remove_scan ks key m)"

text \<open>
  \<open>v.(Elem)\<close> has no \<open>ok\<close> result: it panics on a \<open>*Elem\<close>. The deferred \<open>Unlock\<close> runs
  on the panic as well.
\<close>

definition Remove :: "'v Cache \<Rightarrow> nat option \<Rightarrow> string list \<Rightarrow> string \<Rightarrow> 'v Cache \<times> (bool \<times> error option) outcome" where
  "Remove c pick order key =
     (case Lock (lock c) of
        None \<Rightarrow> (c, Blocks)
      | Some l \<Rightarrow>
          (let (v, p) = pool_Get (pool c) pick;
               c1 = c\<lparr>lock := l, pool := p\<rparr>
           in case v of
                Some (PtrElem q) \<Rightarrow> (c1\<lparr>lock := Unlock l\<rparr>, Panics)
              | _ \<Rightarrow>
                  (let c2 = (case v of
                               Some (ValElem item) \<Rightarrow>
                                 if K item \<noteq> key
                                 then c1\<lparr>pool := pool_Put (pool c1) (ValElem item)\<rparr>
                                 else c1
                             | _ \<Rightarrow> c1);
                       (m, isFound) = Remove_scan order key (elements c2)
                   in (c2\<lparr>elements := m, lock := Unlock l\<rparr>, Returns (isFound, None)))))"

text \<open>\<open>c.elements = make(map[string]Elem, DEFAULT_CAP)\<close>: a new, empty map.\<close>

definition Flush :: "'v Cache \<Rightarrow> nat option \<Rightarrow> 'v Cache \<times> error option outcome" where
  "Flush c pick =
     (case Lock (lock c) of
        None \<Rightarrow> (c, Blocks)
      | Some l \<Rightarrow>
          (let (v, p) = pool_Get (pool c) pick
           in (c\<lparr>pool := p, elements := Map.empty, lock := Unlock l\<rparr>, Returns None)))"

text \<open>
  The loop of \<open>RemoveExpired\<close>, run while the cache's lock is held. \<open>rm k\<close> gives the
  pool's choice and the map order for the call \<open>c.Remove(k)\<close>. A key deleted before the
  loop reaches it is not visited.
\<close>

fun RemoveExpired_loop :: "'v Cache \<Rightarrow> int64 \<Rightarrow> (string \<Rightarrow> nat option \<times> string list) \<Rightarrow> string list
    \<Rightarrow> 'v Cache \<times> unit outcome" where
  "RemoveExpired_loop c now rm [] = (c, Returns ())"
| "RemoveExpired_loop c now rm (k # ks) =
     (case elements c k of
        None \<Rightarrow> RemoveExpired_loop c now rm ks
      | Some v \<Rightarrow>
          if 0 <s Expiration v \<and> Expiration v <s now then
            (case Remove c (fst (rm k)) (snd (rm k)) k of
               (c1, Returns r) \<Rightarrow> RemoveExpired_loop c1 now rm ks
             | (c1, Panics) \<Rightarrow> (c1, Panics)
             | (c1, Blocks) \<Rightarrow> (c1, Blocks))
          else RemoveExpired_loop c now rm ks)"

definition RemoveExpired :: "'v Cache \<Rightarrow> int64 \<Rightarrow> string list \<Rightarrow> (string \<Rightarrow> nat option \<times> string list)
    \<Rightarrow> 'v Cache \<times> unit outcome" where
  "RemoveExpired c now order rm =
     (case Lock (lock c) of
        None \<Rightarrow> (c, Blocks)
      | Some l \<Rightarrow>
          (case RemoveExpired_loop (c\<lparr>lock := l\<rparr>) now rm order of
             (c1, Returns u) \<Rightarrow> (c1\<lparr>lock := Unlock l\<rparr>, Returns ())
           | (c1, Panics) \<Rightarrow> (c1\<lparr>lock := Unlock l\<rparr>, Panics)
           | (c1, Blocks) \<Rightarrow> (c1, Blocks)))"

subsection \<open>Construction\<close>

definition newCache :: "int64 \<Rightarrow> int64 \<Rightarrow> int64 \<Rightarrow> 'v Cache" where
  "newCache cap expiration clean_duration =
     \<lparr>defaultExpiration = expiration,
      elements = Map.empty,
      capacity = cap,
      size_n = 0,
      lock = Free,
      pool = []\<rparr>"

definition NewCache :: "int64 list \<Rightarrow> 'v Cache" where
  "NewCache params =
     (case params of
        p # ps \<Rightarrow> newCache p DEFAULT_EXPIRATION DEFAULT_CLEAN_DURATION
      | [] \<Rightarrow> newCache DEFAULT_CAP DEFAULT_EXPIRATION DEFAULT_CLEAN_DURATION)"

subsection \<open>Sequences of calls\<close>

text \<open>A call of a public operation, with everything the runtime decides during it.\<close>

datatype 'v call =
    CallGet "nat option" int64 int64 string
  | CallPut int64 int64 int64 "string list" string "'v option"
  | CallRemove "nat option" "string list" string
  | CallFlush "nat option"
  | CallRemoveExpired int64 "string list" "string \<Rightarrow> nat option \<times> string list"

fun exec :: "'v call \<Rightarrow> 'v Cache \<Rightarrow> 'v Cache" where
  "exec (CallGet pick now1 now2 key) c = fst (Get c pick now1 now2 key)"
| "exec (CallPut now1 now2 now3 order key val) c = fst (Put c now1 now2 now3 order key val)"
| "exec (CallRemove pick order key) c = fst (Remove c pick order key)"
| "exec (CallFlush pick) c = fst (Flush c pick)"
| "exec (CallRemoveExpired now order rm) c = fst (RemoveExpired c now order rm)"

text \<open>
  The caches a program can hold: a new one, and what any call leaves of one, whether
  the call returned or not.
\<close>

inductive reachable :: "'v Cache \<Rightarrow> bool" where
  reachable_new: "reachable (newCache cap expiration clean_duration)"
| reachable_exec: "reachable c \<Longrightarrow> reachable (exec call c)"

text \<open>The map order handed to a \<open>range\<close> loop lists every key of the map once.\<close>

definition range_order :: "(string \<rightharpoonup> 'e) \<Rightarrow> string list \<Rightarrow> bool" where
  "range_order m order \<longleftrightarrow> distinct order \<and> set order = dom m"


subsection \<open>Predicates used in the statements\<close>

text \<open>
  What \<open>Put\<close> leaves in the pool: a \<open>*Elem\<close> whose \<open>K\<close> field was never set.
\<close>

fun is_ptr :: "'v iface \<Rightarrow> bool" where
  "is_ptr (PtrElem e) = (K e = [])"
| "is_ptr (ValElem e) = False"

definition pool_ptrs :: "'v iface list \<Rightarrow> bool" where
  "pool_ptrs p = list_all is_ptr p"

text \<open>The cache as \<open>Put\<close> finds it after the eviction step.\<close>

definition after_evict :: "'v Cache \<Rightarrow> int64 \<Rightarrow> string list \<Rightarrow> 'v Cache" where
  "after_evict c t order =
     (if capacity c <s size_n c + 1 then fst (removeLeastVisited c t order) else c)"

text \<open>The test of \<open>RemoveExpired\<close> at key \<open>k\<close>: \<open>v.Expiration > 0 && now > v.Expiration\<close>.\<close>

definition due :: "(string \<rightharpoonup> 'v Elem) \<Rightarrow> int64 \<Rightarrow> string \<Rightarrow> bool" where
  "due m now k =
     (case m k of None \<Rightarrow> False | Some v \<Rightarrow> 0 <s Expiration v \<and> Expiration v <s now)"

text \<open>
  For the eviction scan at clock \<open>t\<close>: the keys whose entry has not expired, and what
  holds of the scan's variables once the keys in \<open>S\<close> have been visited.
\<close>

definition qualifies :: "int64 \<Rightarrow> (string \<rightharpoonup> 'v Elem) \<Rightarrow> string \<Rightarrow> bool" where
  "qualifies t m k = (case m k of None \<Rightarrow> False | Some v \<Rightarrow> t <s Expiration v)"

definition scan_inv :: "int64 \<Rightarrow> (string \<rightharpoonup> 'v Elem) \<Rightarrow> string set \<Rightarrow> scan \<Rightarrow> bool" where
  "scan_inv t m S s \<longleftrightarrow>
     length (lastItems s) = DEFAULT_LRU_CLEAN_SIZE \<and>
     liCount s \<le> DEFAULT_LRU_CLEAN_SIZE \<and>
     (\<forall>x \<in> set (lastItems s). x \<noteq> [] \<longrightarrow> x \<in> S \<and> qualifies t m x) \<and>
     (full s \<longrightarrow> 0 < liCount s) \<and>
     (0 < liCount s \<longrightarrow> lastItems s ! 0 \<in> S \<and> qualifies t m (lastItems s ! 0)) \<and>
     ((\<exists>k \<in> S. qualifies t m k) \<longrightarrow> 0 < liCount s)"

subsection \<open>Caches used as examples\<close>

text \<open>\<open>NewCache(1)\<close>, and that cache after \<open>Put("a", 1)\<close> with the clock at 0.\<close>

definition cache1 :: "nat Cache" where
  "cache1 = NewCache [1]"

definition cache1_a :: "nat Cache" where
  "cache1_a = fst (Put cache1 0 0 0 [] ''a'' (Some 1))"

text \<open>\<open>NewCache(2)\<close> after \<open>Put("a", 1)\<close>, and \<open>NewCache(1)\<close> after \<open>Put("", 1)\<close>.\<close>

definition cache2 :: "nat Cache" where
  "cache2 = NewCache [2]"

definition cache2_a :: "nat Cache" where
  "cache2_a = fst (Put cache2 0 0 0 [] ''a'' (Some 1))"

definition cache1_e :: "nat Cache" where
  "cache1_e = fst (Put cache1 0 0 0 [] [] (Some 1))"

section \<open>Properties\<close>

subsection \<open>What each operation does to the fields\<close>

lemma replicate_clean_size:
  "replicate 20 x = [x, x, x, x, x, x, x, x, x, x, x, x, x, x, x, x, x, x, x, x]"
  by (simp add: eval_nat_numeral)

lemma pool_Get_ptrs: "pool_ptrs p \<Longrightarrow> pool_ptrs (snd (pool_Get p pick))"
  by (auto simp: pool_ptrs_def pool_Get_def list_all_iff split: option.splits dest: in_set_takeD in_set_dropD)

lemma pool_Get_is_ptr: "pool_ptrs p \<Longrightarrow> fst (pool_Get p pick) = Some x \<Longrightarrow> is_ptr x"
  by (auto simp: pool_ptrs_def pool_Get_def list_all_iff split: option.splits if_splits)

lemma Get_pooled_ptrs: "pool_ptrs p \<Longrightarrow> Get_pooled (fst (pool_Get p pick)) key = None"
proof (cases "fst (pool_Get p pick)")
  case None
  then show ?thesis by (simp add: Get_pooled_def)
next
  case (Some x)
  assume "pool_ptrs p"
  then have "is_ptr x" using Some by (rule pool_Get_is_ptr)
  then show ?thesis using Some by (cases x) (simp_all add: Get_pooled_def)
qed

lemma Get_pool: "pool (fst (Get c pick now1 now2 key)) = snd (pool_Get (pool c) pick)"
  by (simp add: Get_def Let_def split: prod.splits option.splits)

lemma Get_elements: "elements (fst (Get c pick now1 now2 key)) = elements c"
  by (simp add: Get_def Let_def split: prod.splits option.splits)

lemma Get_size: "size_n (fst (Get c pick now1 now2 key)) = size_n c"
  by (simp add: Get_def Let_def split: prod.splits option.splits)

lemma Get_capacity: "capacity (fst (Get c pick now1 now2 key)) = capacity c"
  by (simp add: Get_def Let_def split: prod.splits option.splits)


lemma Get_lock_Free: "lock c = Free \<Longrightarrow> lock (fst (Get c pick now1 now2 key)) = Free"
  by (simp add: Get_def Let_def split: prod.splits option.splits)

lemma Get_lock_Writer: "lock c = Writer \<Longrightarrow> lock (fst (Get c pick now1 now2 key)) = Writer"
  by (simp add: Get_def Let_def split: prod.splits option.splits)

lemma Get_unpooled:
  assumes "pool_ptrs (pool c)"
  shows "snd (Get c pick now1 now2 key) =
    (if lock c = Writer then Blocks
     else Returns (case elements c key of None \<Rightarrow> None | Some e \<Rightarrow> V e))"
proof -
  have "Get_pooled (fst (pool_Get (pool c) pick)) key = None"
    using assms by (rule Get_pooled_ptrs)
  then show ?thesis
    by (cases "lock c") (simp_all add: Get_def Let_def case_prod_beta split: option.splits)
qed

lemma update_fst: "fst (update c k v expire lastHit) = c"
  by (simp add: update_def Let_def split: option.splits)

lemma update_snd: "snd (update c k v expire lastHit) = (elements c k \<noteq> None)"
  by (simp add: update_def Let_def split: option.splits)

lemma removeLeastVisited_pool: "pool (fst (removeLeastVisited c t order)) = pool c"
  by (simp add: removeLeastVisited_def Let_def split: option.splits)

lemma removeLeastVisited_size: "size_n (fst (removeLeastVisited c t order)) = size_n c"
  by (simp add: removeLeastVisited_def Let_def split: option.splits)

lemma removeLeastVisited_capacity: "capacity (fst (removeLeastVisited c t order)) = capacity c"
  by (simp add: removeLeastVisited_def Let_def split: option.splits)

lemma removeLeastVisited_snd:
  "snd (removeLeastVisited c t order) = (if lock c = Free then Returns None else Blocks)"
  by (cases "lock c") (simp_all add: removeLeastVisited_def Let_def)

lemma removeLeastVisited_lock: "lock (fst (removeLeastVisited c t order)) = lock c"
  by (cases "lock c") (simp_all add: removeLeastVisited_def Let_def)

lemma Put_Free:
  assumes "lock c = Free"
  shows "Put c now1 now2 now3 order key val =
    (let c1 = after_evict c now3 order;
         ele = \<lparr>K = [], V = val, Expiration = now1 + DEFAULT_EXPIRATION, LastHit = now2\<rparr>
     in if elements c1 key \<noteq> None then (c1, Returns None)
        else (c1\<lparr>pool := PtrElem ele # pool c1, elements := (elements c1)(key \<mapsto> ele),
                 size_n := size_n c1 + 1\<rparr>, Returns None))"
  using assms
  by (auto simp: Put_def after_evict_def removeLeastVisited_def update_def pool_Put_def Let_def
      split: option.splits prod.splits)

lemma Put_not_Free:
  assumes "lock c \<noteq> Free"
  shows "Put c now1 now2 now3 order key val = (c, Blocks)"
  using assms
  by (cases "lock c") (auto simp: Put_def removeLeastVisited_def Let_def)


lemma Put_size_capacity:
  "capacity (fst (Put c now1 now2 now3 order key val)) = capacity c"
  by (cases "lock c = Free")
    (simp_all add: Put_Free Put_not_Free Let_def after_evict_def removeLeastVisited_capacity)

lemma after_evict_pool: "pool (after_evict c t order) = pool c"
  by (simp add: after_evict_def removeLeastVisited_pool)

lemma after_evict_size: "size_n (after_evict c t order) = size_n c"
  by (simp add: after_evict_def removeLeastVisited_size)

lemma after_evict_lock: "lock (after_evict c t order) = lock c"
  by (simp add: after_evict_def removeLeastVisited_lock)

lemma Put_pool_ptrs:
  "pool_ptrs (pool c) \<Longrightarrow> pool_ptrs (pool (fst (Put c now1 now2 now3 order key val)))"
  by (cases "lock c = Free")
    (simp_all add: Put_Free Put_not_Free Let_def after_evict_pool pool_ptrs_def)

lemma Put_lock: "lock (fst (Put c now1 now2 now3 order key val)) = lock c"
  by (cases "lock c = Free") (simp_all add: Put_Free Put_not_Free Let_def after_evict_lock)

lemma Remove_not_Free: "lock c \<noteq> Free \<Longrightarrow> Remove c pick order key = (c, Blocks)"
  by (cases "lock c") (simp_all add: Remove_def)

lemma Remove_size: "size_n (fst (Remove c pick order key)) = size_n c"
  by (simp add: Remove_def Let_def case_prod_beta split: option.splits iface.splits)

lemma Remove_capacity: "capacity (fst (Remove c pick order key)) = capacity c"
  by (simp add: Remove_def Let_def case_prod_beta split: option.splits iface.splits)

lemma Remove_lock: "lock c = Free \<Longrightarrow> lock (fst (Remove c pick order key)) = Free"
  by (simp add: Remove_def Let_def case_prod_beta split: option.splits iface.splits)

lemma Remove_Panics_iff:
  "lock c = Free \<Longrightarrow>
   snd (Remove c pick order key) = Panics \<longleftrightarrow> (\<exists>q. fst (pool_Get (pool c) pick) = Some (PtrElem q))"
  by (simp add: Remove_def Let_def case_prod_beta split: option.splits iface.splits)

lemma Remove_pool_ptrs:
  assumes "pool_ptrs (pool c)"
  shows "pool_ptrs (pool (fst (Remove c pick order key)))"
proof (cases "lock c = Free")
  case False
  then show ?thesis using assms by (simp add: Remove_not_Free)
next
  case True
  have rest: "pool_ptrs (snd (pool_Get (pool c) pick))"
    using assms by (rule pool_Get_ptrs)
  show ?thesis
  proof (cases "fst (pool_Get (pool c) pick)")
    case None
    then show ?thesis using True rest
      by (simp add: Remove_def Let_def case_prod_beta)
  next
    case (Some x)
    with assms have "is_ptr x" by (rule pool_Get_is_ptr)
    then show ?thesis using True rest Some
      by (cases x) (simp_all add: Remove_def Let_def case_prod_beta)
  qed
qed

lemma Flush_Free:
  "lock c = Free \<Longrightarrow>
   Flush c pick = (c\<lparr>pool := snd (pool_Get (pool c) pick), elements := Map.empty\<rparr>, Returns None)"
  by (simp add: Flush_def Let_def case_prod_beta)

lemma Flush_not_Free: "lock c \<noteq> Free \<Longrightarrow> Flush c pick = (c, Blocks)"
  by (cases "lock c") (simp_all add: Flush_def)

lemma Flush_size: "size_n (fst (Flush c pick)) = size_n c"
  by (cases "lock c = Free") (simp_all add: Flush_Free Flush_not_Free)

lemma Flush_capacity: "capacity (fst (Flush c pick)) = capacity c"
  by (cases "lock c = Free") (simp_all add: Flush_Free Flush_not_Free)

lemma Flush_lock: "lock (fst (Flush c pick)) = lock c"
  by (cases "lock c = Free") (simp_all add: Flush_Free Flush_not_Free)

lemma Flush_pool_ptrs: "pool_ptrs (pool c) \<Longrightarrow> pool_ptrs (pool (fst (Flush c pick)))"
  by (cases "lock c = Free") (simp_all add: Flush_Free Flush_not_Free pool_Get_ptrs)

lemma RemoveExpired_loop_held:
  "lock c \<noteq> Free \<Longrightarrow>
   RemoveExpired_loop c now rm ks = (c, if list_ex (due (elements c) now) ks then Blocks else Returns ())"
  by (induction ks) (auto simp: due_def Remove_not_Free split: option.splits)

lemma RemoveExpired_Free:
  "lock c = Free \<Longrightarrow>
   RemoveExpired c now order rm =
     (if list_ex (due (elements c) now) order then (c\<lparr>lock := Writer\<rparr>, Blocks) else (c, Returns ()))"
  by (simp add: RemoveExpired_def RemoveExpired_loop_held due_def)

lemma RemoveExpired_not_Free: "lock c \<noteq> Free \<Longrightarrow> RemoveExpired c now order rm = (c, Blocks)"
  by (cases "lock c") (simp_all add: RemoveExpired_def)

lemma RemoveExpired_fst:
  "fst (RemoveExpired c now order rm) = c \<or> fst (RemoveExpired c now order rm) = c\<lparr>lock := Writer\<rparr>"
  by (cases "lock c = Free") (simp_all add: RemoveExpired_Free RemoveExpired_not_Free)

lemma RemoveExpired_size: "size_n (fst (RemoveExpired c now order rm)) = size_n c"
  using RemoveExpired_fst [of c now order rm] by auto

lemma RemoveExpired_capacity: "capacity (fst (RemoveExpired c now order rm)) = capacity c"
  using RemoveExpired_fst [of c now order rm] by auto

lemma RemoveExpired_pool: "pool (fst (RemoveExpired c now order rm)) = pool c"
  using RemoveExpired_fst [of c now order rm] by auto

lemma RemoveExpired_elements: "elements (fst (RemoveExpired c now order rm)) = elements c"
  using RemoveExpired_fst [of c now order rm] by auto

lemma exec_pool_ptrs: "pool_ptrs (pool c) \<Longrightarrow> pool_ptrs (pool (exec call c))"
  by (cases call)
    (simp_all add: Get_pool pool_Get_ptrs Put_pool_ptrs Remove_pool_ptrs Flush_pool_ptrs
      RemoveExpired_pool)

lemma reachable_pool_ptrs: "reachable c \<Longrightarrow> pool_ptrs (pool c)"
proof (induction rule: reachable.induct)
  case (reachable_new cap expiration clean_duration)
  show ?case by (simp add: newCache_def pool_ptrs_def)
next
  case (reachable_exec c call)
  then show ?case by (simp add: exec_pool_ptrs)
qed

lemma delete_items_None: "m k = None \<Longrightarrow> delete_items xs m k = None"
  by (induction xs arbitrary: m) simp_all

lemma removeLeastVisited_absent:
  "elements c key = None \<Longrightarrow> elements (fst (removeLeastVisited c t order)) key = None"
  by (simp add: removeLeastVisited_def Let_def delete_items_None split: option.splits)

lemma after_evict_absent:
  "elements c key = None \<Longrightarrow> elements (after_evict c t order) key = None"
  by (simp add: after_evict_def removeLeastVisited_absent)

lemma after_evict_capacity: "capacity (after_evict c t order) = capacity c"
  by (simp add: after_evict_def removeLeastVisited_capacity)

lemma Put_size:
  "size_n (fst (Put c now1 now2 now3 order key val)) =
     (if lock c = Free \<and> elements (after_evict c now3 order) key = None then size_n c + 1
      else size_n c)"
  by (cases "lock c = Free") (auto simp: Put_Free Put_not_Free Let_def after_evict_size)

subsection \<open>The eviction scan\<close>

text \<open>
  Every key in the candidate window is the key of an entry that has not expired, and
  slot 0 of the window is filled as soon as one such entry has been visited.
\<close>

lemma scan_inv_init: "scan_inv t m {} scan_init"
  by (simp add: scan_inv_def scan_init_def)

lemma scan_step_skip: "\<not> qualifies t m k \<Longrightarrow> scan_step t m s k = s"
  by (simp add: scan_step_def qualifies_def split: option.splits)

lemma scan_inv_mono:
  assumes "scan_inv t m S s" and "\<not> qualifies t m k"
  shows "scan_inv t m (insert k S) s"
  using assms unfolding scan_inv_def by auto

lemma scan_inv_step:
  assumes inv: "scan_inv t m S s"
  shows "scan_inv t m (insert k S) (scan_step t m s k)"
proof (cases "qualifies t m k")
  case False
  then show ?thesis using inv by (simp add: scan_step_skip scan_inv_mono)
next
  case True
  then obtain v where v: "m k = Some v" "t <s Expiration v"
    by (auto simp: qualifies_def split: option.splits)
  show ?thesis
  proof (cases "\<not> full s \<or> LastHit v <s lastTime s")
    case False
    then have "scan_step t m s k = s" using v by (simp add: scan_step_def)
    moreover have "scan_inv t m (insert k S) s"
      using inv False unfolding scan_inv_def by auto
    ultimately show ?thesis by simp
  next
    case take: True
    show ?thesis
    proof (cases "liCount s < DEFAULT_LRU_CLEAN_SIZE")
      case True
      then have eq: "scan_step t m s k =
          s\<lparr>lastTime := LastHit v, lastItems := (lastItems s)[liCount s := k],
            liCount := liCount s + 1\<rparr>"
        using v take by (simp add: scan_step_def Let_def)
      have "\<forall>x \<in> set ((lastItems s)[liCount s := k]). x \<noteq> [] \<longrightarrow> x \<in> insert k S \<and> qualifies t m x"
        using inv \<open>qualifies t m k\<close> set_update_subset_insert [of "lastItems s" "liCount s" k]
        unfolding scan_inv_def by auto
      moreover have "(lastItems s)[liCount s := k] ! 0 \<in> insert k S \<and>
          qualifies t m ((lastItems s)[liCount s := k] ! 0)"
        using inv True \<open>qualifies t m k\<close> unfolding scan_inv_def
        by (cases "liCount s = 0") (auto simp: nth_list_update)
      ultimately show ?thesis
        using inv True unfolding eq scan_inv_def by simp
    next
      case False
      then have eq: "scan_step t m s k =
          s\<lparr>lastTime := LastHit v, lastItems := (lastItems s)[0 := k], liCount := 1,
            full := True\<rparr>"
        using v take by (simp add: scan_step_def Let_def)
      have "\<forall>x \<in> set ((lastItems s)[0 := k]). x \<noteq> [] \<longrightarrow> x \<in> insert k S \<and> qualifies t m x"
        using inv \<open>qualifies t m k\<close> set_update_subset_insert [of "lastItems s" 0 k]
        unfolding scan_inv_def by auto
      moreover have "(lastItems s)[0 := k] ! 0 = k"
        using inv unfolding scan_inv_def by (simp add: DEFAULT_LRU_CLEAN_SIZE_def)
      ultimately show ?thesis
        using inv \<open>qualifies t m k\<close> unfolding eq scan_inv_def
        by (simp add: DEFAULT_LRU_CLEAN_SIZE_def)
    qed
  qed
qed

lemma scan_inv_foldl:
  "scan_inv t m S s \<Longrightarrow> scan_inv t m (S \<union> set ks) (foldl (scan_step t m) s ks)"
proof (induction ks arbitrary: S s)
  case Nil
  then show ?case by simp
next
  case (Cons k ks)
  from Cons.prems have "scan_inv t m (insert k S) (scan_step t m s k)"
    by (rule scan_inv_step)
  then have "scan_inv t m (insert k S \<union> set ks) (foldl (scan_step t m) (scan_step t m s k) ks)"
    by (rule Cons.IH)
  then show ?case by simp
qed

lemma scan_inv_result: "scan_inv t m (set order) (foldl (scan_step t m) scan_init order)"
  using scan_inv_foldl [OF scan_inv_init, of t m order] by simp

lemma delete_items_apply:
  "delete_items xs m k = (if k \<in> set (takeWhile (\<lambda>x. x \<noteq> []) xs) then None else m k)"
  by (induction xs arbitrary: m) auto


lemma removeLeastVisited_elements:
  "lock c = Free \<Longrightarrow>
   elements (fst (removeLeastVisited c t order)) k =
     (if k \<in> set (takeWhile (\<lambda>x. x \<noteq> [])
                  (lastItems (foldl (scan_step t (elements c)) scan_init order)))
      then None else elements c k)"
  by (simp add: removeLeastVisited_def Let_def delete_items_apply)

lemma removeLeastVisited_held: "lock c \<noteq> Free \<Longrightarrow> removeLeastVisited c t order = (c, Blocks)"
  by (cases "lock c") (simp_all add: removeLeastVisited_def)

lemma eviction_removes_only_unexpired:
  assumes "elements c k = Some e"
    and "elements (fst (removeLeastVisited c t order)) k = None"
  shows "t <s Expiration e"
proof (cases "lock c = Free")
  case False
  then show ?thesis using assms by (simp add: removeLeastVisited_held)
next
  case True
  let ?s = "foldl (scan_step t (elements c)) scan_init order"
  from assms True have "k \<in> set (takeWhile (\<lambda>x. x \<noteq> []) (lastItems ?s))"
    by (simp add: removeLeastVisited_elements split: if_splits)
  then have "k \<in> set (lastItems ?s)" and "k \<noteq> []"
    by (auto dest: set_takeWhileD)
  moreover have "scan_inv t (elements c) (set order) ?s" by (rule scan_inv_result)
  ultimately have "qualifies t (elements c) k" unfolding scan_inv_def by blast
  then show ?thesis using assms(1) by (simp add: qualifies_def)
qed

lemma eviction_removes_at_most_20:
  "card {k. elements c k \<noteq> None \<and> elements (fst (removeLeastVisited c t order)) k = None}
     \<le> DEFAULT_LRU_CLEAN_SIZE"
proof (cases "lock c = Free")
  case False
  then have "{k. elements c k \<noteq> None \<and> elements (fst (removeLeastVisited c t order)) k = None} = {}"
    by (auto simp: removeLeastVisited_held)
  then show ?thesis by (simp only: card.empty le0)
next
  case True
  let ?s = "foldl (scan_step t (elements c)) scan_init order"
  let ?R = "{k. elements c k \<noteq> None \<and> elements (fst (removeLeastVisited c t order)) k = None}"
  have "?R \<subseteq> set (lastItems ?s)"
    using True by (auto simp: removeLeastVisited_elements split: if_splits dest: set_takeWhileD)
  then have "card ?R \<le> card (set (lastItems ?s))"
    by (rule card_mono [OF finite_set])
  also have "\<dots> \<le> length (lastItems ?s)" by (rule card_length)
  also have "\<dots> = DEFAULT_LRU_CLEAN_SIZE"
    using scan_inv_result [of t "elements c" order] unfolding scan_inv_def by simp
  finally show ?thesis .
qed

lemma eviction_frees_entry:
  assumes free: "lock c = Free"
    and order: "range_order (elements c) order"
    and noempty: "elements c [] = None"
    and live: "elements c k = Some e" "t <s Expiration e"
  shows "\<exists>k'. elements c k' \<noteq> None \<and> elements (fst (removeLeastVisited c t order)) k' = None"
proof -
  let ?s = "foldl (scan_step t (elements c)) scan_init order"
  have inv: "scan_inv t (elements c) (set order) ?s" by (rule scan_inv_result)
  from live order have "k \<in> set order" and "qualifies t (elements c) k"
    by (auto simp: range_order_def qualifies_def)
  with inv have pos: "0 < liCount ?s" unfolding scan_inv_def by blast
  with inv have q0: "qualifies t (elements c) (lastItems ?s ! 0)"
    unfolding scan_inv_def by blast
  then have present: "elements c (lastItems ?s ! 0) \<noteq> None"
    by (auto simp: qualifies_def split: option.splits)
  with noempty have ne: "lastItems ?s ! 0 \<noteq> []" by auto
  from inv have "lastItems ?s \<noteq> []"
    unfolding scan_inv_def by (auto simp: DEFAULT_LRU_CLEAN_SIZE_def)
  then obtain x xs where xs: "lastItems ?s = x # xs" by (cases "lastItems ?s") auto
  with ne have "lastItems ?s ! 0 \<in> set (takeWhile (\<lambda>x. x \<noteq> []) (lastItems ?s))" by simp
  with free have "elements (fst (removeLeastVisited c t order)) (lastItems ?s ! 0) = None"
    by (simp add: removeLeastVisited_elements)
  with present show ?thesis by blast
qed

lemma Put_key_present:
  "lock c = Free \<Longrightarrow>
   snd (Put c now1 now2 now3 order key val) = Returns None \<and>
   elements (fst (Put c now1 now2 now3 order key val)) key \<noteq> None"
  by (simp add: Put_Free Let_def)

subsection \<open>The example caches\<close>

lemma cache1_eq:
  "cache1 =
     \<lparr>defaultExpiration = 600000000000, elements = Map.empty, capacity = 1, size_n = 0,
      lock = Free, pool = []\<rparr>"
  by (simp add: cache1_def NewCache_def newCache_def DEFAULT_EXPIRATION_def)

lemma cache2_a_eq:
  "cache2_a =
     \<lparr>defaultExpiration = 600000000000,
      elements = [''a'' \<mapsto> \<lparr>K = [], V = Some 1, Expiration = 600000000000, LastHit = 0\<rparr>],
      capacity = 2,
      size_n = 1,
      lock = Free,
      pool = [PtrElem \<lparr>K = [], V = Some 1, Expiration = 600000000000, LastHit = 0\<rparr>]\<rparr>"
  by (simp add: cache2_a_def cache2_def NewCache_def newCache_def Put_Free after_evict_def
      DEFAULT_EXPIRATION_def word_sless_alt Let_def)

lemma cache1_e_eq:
  "cache1_e =
     \<lparr>defaultExpiration = 600000000000,
      elements = [[] \<mapsto> \<lparr>K = [], V = Some 1, Expiration = 600000000000, LastHit = 0\<rparr>],
      capacity = 1,
      size_n = 1,
      lock = Free,
      pool = [PtrElem \<lparr>K = [], V = Some 1, Expiration = 600000000000, LastHit = 0\<rparr>]\<rparr>"
  by (simp add: cache1_e_def cache1_eq Put_Free after_evict_def
      DEFAULT_EXPIRATION_def word_sless_alt Let_def)

lemma cache1_a_eq:
  "cache1_a =
     \<lparr>defaultExpiration = 600000000000,
      elements = [''a'' \<mapsto> \<lparr>K = [], V = Some 1, Expiration = 600000000000, LastHit = 0\<rparr>],
      capacity = 1,
      size_n = 1,
      lock = Free,
      pool = [PtrElem \<lparr>K = [], V = Some 1, Expiration = 600000000000, LastHit = 0\<rparr>]\<rparr>"
  by (simp add: cache1_a_def cache1_def NewCache_def newCache_def Put_Free after_evict_def
      DEFAULT_EXPIRATION_def word_sless_alt Let_def)

lemma reachable_cache1: "reachable cache1"
  unfolding cache1_def NewCache_def by (simp add: reachable_new)

lemma reachable_cache1_a: "reachable cache1_a"
  using reachable_exec [OF reachable_cache1, of "CallPut 0 0 0 [] ''a'' (Some 1)"]
  by (simp add: cache1_a_def)

lemma eviction_frees_entry_example:
  "range_order (elements cache1_a) [''a''] \<and>
   elements cache1_a ''a'' \<noteq> None \<and>
   elements (fst (removeLeastVisited cache1_a 5 [''a''])) ''a'' = None"
proof -
  let ?e = "\<lparr>K = [], V = Some (1::nat), Expiration = 600000000000, LastHit = 0\<rparr>"
  have o: "range_order (elements cache1_a) [''a'']"
    by (simp add: cache1_a_eq range_order_def)
  have l: "lock cache1_a = Free" and n: "elements cache1_a [] = None"
    and m: "elements cache1_a ''a'' = Some ?e" and x: "(5 :: int64) <s Expiration ?e"
    by (simp_all add: cache1_a_eq word_sless_alt)
  from eviction_frees_entry [OF l o n m x] obtain k where
    k: "elements cache1_a k \<noteq> None" "elements (fst (removeLeastVisited cache1_a 5 [''a''])) k = None"
    by blast
  from k(1) have "k = ''a''" by (simp add: cache1_a_eq split: if_splits)
  with k o m show ?thesis by simp
qed

lemma Flush_then_Get_misses:
  assumes "reachable c" and "lock c = Free"
  shows "snd (Flush c pick) = Returns None \<and>
    elements (fst (Flush c pick)) = Map.empty \<and>
    snd (Get (fst (Flush c pick)) pick' now1 now2 key) = Returns None"
proof -
  from assms(1) have "pool_ptrs (pool c)" by (rule reachable_pool_ptrs)
  then have "pool_ptrs (pool (fst (Flush c pick)))" by (rule Flush_pool_ptrs)
  then have "snd (Get (fst (Flush c pick)) pick' now1 now2 key) = Returns None"
    using assms(2) by (simp add: Get_unpooled Flush_Free)
  then show ?thesis using assms(2) by (simp add: Flush_Free)
qed

section \<open>The claims\<close>

subsection \<open>C1: reading an expired entry\<close>




subsection \<open>C2: the size counter and the capacity\<close>

text \<open>
  C2: after every completed operation \<open>size <= capacity\<close> is claimed. \<open>Put\<close> tests
  \<open>size + 1 > capacity\<close> and runs the eviction to make room, but the eviction deletes
  entries without lowering \<open>size\<close>, and \<open>Put\<close> then adds one to it: on \<open>NewCache(1)\<close> the
  calls \<open>Put("a", 1)\<close>, \<open>Put("b", 2)\<close> both return, the second with \<open>size = 2\<close> and
  \<open>capacity = 1\<close>.
\<close>

theorem Put_exceeds_capacity:
  "size_n (fst (Put cache1_a 5 5 5 [''a''] ''b'' (Some 2))) = 2 \<and>
   capacity (fst (Put cache1_a 5 5 5 [''a''] ''b'' (Some 2))) = 1 \<and>
   snd (Put cache1_a 5 5 5 [''a''] ''b'' (Some 2)) = Returns None \<and>
   \<not> (2 :: int64) \<le>s 1"
  by (simp add: cache1_a_eq Put_Free after_evict_def removeLeastVisited_def scan_step_def
      scan_init_def replicate_clean_size DEFAULT_LRU_CLEAN_SIZE_def DEFAULT_EXPIRATION_def
      word_sless_alt word_sle_eq Let_def)

subsection \<open>C3: the size counter and the number of entries\<close>

text \<open>
  C3: after every completed operation \<open>size\<close> is claimed to be the number of entries of
  the elements map. \<open>Remove\<close> and the eviction delete entries and leave \<open>size\<close> as it
  was: after \<open>Put("a", 1)\<close>, \<open>Remove("a")\<close> returns true with the map empty and
  \<open>size = 1\<close>, and the eviction of \<open>"a"\<close> leaves \<open>size = 1\<close> as well.
\<close>

theorem Remove_and_eviction_keep_size:
  "snd (Remove cache1_a None [''a''] ''a'') = Returns (True, None) \<and>
   size_n (fst (Remove cache1_a None [''a''] ''a'')) = 1 \<and>
   card (dom (elements (fst (Remove cache1_a None [''a''] ''a'')))) = 0 \<and>
   snd (removeLeastVisited cache1_a 5 [''a'']) = Returns None \<and>
   size_n (fst (removeLeastVisited cache1_a 5 [''a''])) = 1 \<and>
   card (dom (elements (fst (removeLeastVisited cache1_a 5 [''a''])))) = 0"
proof -
  have "elements (fst (removeLeastVisited cache1_a 5 [''a''])) = Map.empty"
    by (simp add: cache1_a_eq removeLeastVisited_def scan_step_def scan_init_def
        replicate_clean_size DEFAULT_LRU_CLEAN_SIZE_def word_sless_alt Let_def)
  moreover have "snd (removeLeastVisited cache1_a 5 [''a'']) = Returns None"
    and "size_n (fst (removeLeastVisited cache1_a 5 [''a''])) = 1"
    by (simp_all add: cache1_a_eq removeLeastVisited_snd removeLeastVisited_size)
  moreover have "snd (Remove cache1_a None [''a''] ''a'') = Returns (True, None)"
    and "size_n (fst (Remove cache1_a None [''a''] ''a'')) = 1"
    and "card (dom (elements (fst (Remove cache1_a None [''a''] ''a'')))) = 0"
    by (simp_all add: cache1_a_eq Remove_def pool_Get_def Let_def)
  ultimately show ?thesis by simp
qed

subsection \<open>C4: Get and the metadata of the entry\<close>

text \<open>
  C4: \<open>Get\<close> of a present key is claimed to store the refreshed \<open>LastHit\<close> and
  \<open>Expiration\<close> in the elements map. It assigns them to a copy of the entry: after
  \<open>Put("a", 1)\<close> at clock 0, \<open>Get("a")\<close> at clock 1000 returns 1 and the map still holds
  \<open>Expiration = 600000000000\<close> and \<open>LastHit = 0\<close> (\<open>Get_elements\<close>: the map is never
  changed by \<open>Get\<close>).
\<close>

theorem Get_leaves_entry_unrefreshed:
  "snd (Get cache1_a None 1000 1000 ''a'') = Returns (Some 1) \<and>
   map_option Expiration (elements (fst (Get cache1_a None 1000 1000 ''a'')) ''a'')
     = Some 600000000000 \<and>
   map_option LastHit (elements (fst (Get cache1_a None 1000 1000 ''a'')) ''a'') = Some 0"
  by (simp add: Get_elements) (simp add: cache1_a_eq Get_def pool_Get_def Get_pooled_def Let_def)

subsection \<open>C5: Put of a key that is present\<close>

text \<open>
  C5: \<open>Put\<close> of a present key is claimed to replace the value and refresh the
  timestamps in the elements map. \<open>update\<close> assigns them to a copy of the entry: on
  \<open>NewCache(2)\<close> after \<open>Put("a", 1)\<close>, the call \<open>Put("a", 2)\<close> returns and the map still
  holds the value 1 with the timestamps of the first \<open>Put\<close>; \<open>Get("a")\<close> returns 1.
\<close>

theorem Put_existing_key_keeps_old_value:
  "snd (Put cache2_a 5 5 5 [''a''] ''a'' (Some 2)) = Returns None \<and>
   map_option V (elements (fst (Put cache2_a 5 5 5 [''a''] ''a'' (Some 2))) ''a'')
     = Some (Some 1) \<and>
   map_option Expiration (elements (fst (Put cache2_a 5 5 5 [''a''] ''a'' (Some 2))) ''a'')
     = Some 600000000000 \<and>
   map_option LastHit (elements (fst (Put cache2_a 5 5 5 [''a''] ''a'' (Some 2))) ''a'')
     = Some 0 \<and>
   snd (Get (fst (Put cache2_a 5 5 5 [''a''] ''a'' (Some 2))) None 6 6 ''a'')
     = Returns (Some 1)"
  by (simp add: cache2_a_eq Put_Free after_evict_def word_sless_alt Let_def
      Get_def pool_Get_def Get_pooled_def)

subsection \<open>C6: RemoveExpired\<close>

text \<open>
  C6: \<open>RemoveExpired\<close> is claimed to return with every expired entry deleted. It
  takes the write lock and then calls \<open>Remove\<close>, which takes the same lock: at the first
  expired entry the call waits for ever, with the lock held and the entry still in the
  map (\<open>RemoveExpired_Free\<close>: it returns only when the test finds no entry to remove).
\<close>

theorem RemoveExpired_blocks_on_expired_entry:
  "lock cache1_a = Free \<and>
   map_option Expiration (elements cache1_a ''a'') = Some 600000000000 \<and>
   (600000000000 :: int64) <s 600000000001 \<and>
   snd (RemoveExpired cache1_a 600000000001 [''a''] (\<lambda>k. (None, [''a'']))) = Blocks \<and>
   lock (fst (RemoveExpired cache1_a 600000000001 [''a''] (\<lambda>k. (None, [''a''])))) = Writer"
  by (simp add: cache1_a_eq RemoveExpired_Free due_def word_sless_alt)

subsection \<open>C7: the eviction\<close>

text \<open>
  C7: the eviction is claimed to remove at least one entry when the store holds an
  entry that has not expired. The loop that deletes the candidates stops at the first
  empty string, which it takes for an unused slot: when the key \<open>""\<close> is the first
  candidate nothing is deleted. On \<open>NewCache(1)\<close> after \<open>Put("", 1)\<close>, \<open>Put("b", 2)\<close> runs
  the eviction, which deletes nothing, and the map then holds both keys. (When the
  empty string is not a key the eviction does free an entry, \<open>eviction_frees_entry\<close>; it
  deletes only entries that have not expired, at most 20 of them, and \<open>Put\<close> always
  leaves its key in the map: \<open>eviction_removes_only_unexpired\<close>,
  \<open>eviction_removes_at_most_20\<close>, \<open>Put_key_present\<close>.)
\<close>

theorem eviction_skips_empty_key:
  "map_option Expiration (elements cache1_e []) = Some 600000000000 \<and>
   (5 :: int64) <s 600000000000 \<and>
   capacity cache1_e <s size_n cache1_e + 1 \<and>
   snd (removeLeastVisited cache1_e 5 [[]]) = Returns None \<and>
   elements (fst (removeLeastVisited cache1_e 5 [[]])) = elements cache1_e \<and>
   dom (elements (fst (Put cache1_e 5 5 5 [[]] ''b'' (Some 2)))) = {[], ''b''}"
  by (simp add: cache1_e_eq Put_Free after_evict_def removeLeastVisited_def scan_step_def
      scan_init_def replicate_clean_size DEFAULT_LRU_CLEAN_SIZE_def word_sless_alt Let_def
      insert_commute)

subsection \<open>C8: Flush\<close>

text \<open>
  C8: \<open>Flush\<close> is claimed to clear the entries and to reset \<open>size\<close> to zero. It replaces
  the map and does not assign \<open>size\<close>: after \<open>Put("a", 1)\<close> on \<open>NewCache(1)\<close>, \<open>Flush\<close>
  returns with the map empty and \<open>size = 1\<close>, so that the next \<open>Put\<close> finds
  \<open>size + 1 > capacity\<close> on an empty cache. (The map is empty after every \<open>Flush\<close> and a
  \<open>Get\<close> right after it is a miss: \<open>Flush_then_Get_misses\<close>.)
\<close>

theorem Flush_leaves_size:
  "snd (Flush cache1_a None) = Returns None \<and>
   elements (fst (Flush cache1_a None)) = Map.empty \<and>
   size_n (fst (Flush cache1_a None)) = 1 \<and>
   capacity (fst (Flush cache1_a None)) <s size_n (fst (Flush cache1_a None)) + 1"
  by (simp add: cache1_a_eq Flush_Free word_sless_alt)

subsection \<open>C9: the type assertion in Remove\<close>

text \<open>
  C9: with the mutex free, \<open>Remove\<close> panics exactly when the pool hands out a
  \<open>*Elem\<close>; it returns only when the pool hands out \<open>nil\<close> or an \<open>Elem\<close>; and there are
  executions that panic: after any \<open>Put\<close> of a new key on a reachable cache, a \<open>Remove\<close>
  to which the pool hands out the pointer that \<open>Put\<close> has just stored panics.
\<close>

theorem Remove_panics_on_pointer:
  "(lock c = Free \<longrightarrow>
      (snd (Remove c pick order key) = Panics
         \<longleftrightarrow> (\<exists>q. fst (pool_Get (pool c) pick) = Some (PtrElem q)))) \<and>
   (snd (Remove c pick order key) = Returns r \<longrightarrow>
      fst (pool_Get (pool c) pick) = None
      \<or> (\<exists>item. fst (pool_Get (pool c) pick) = Some (ValElem item))) \<and>
   (reachable c \<and> lock c = Free \<and> elements c key' = None \<longrightarrow>
      reachable (fst (Put c now1 now2 now3 order' key' val)) \<and>
      snd (Put c now1 now2 now3 order' key' val) = Returns None \<and>
      snd (Remove (fst (Put c now1 now2 now3 order' key' val)) (Some 0) order key) = Panics)"
proof (intro conjI impI)
  assume "lock c = Free"
  then show "snd (Remove c pick order key) = Panics
      \<longleftrightarrow> (\<exists>q. fst (pool_Get (pool c) pick) = Some (PtrElem q))"
    by (rule Remove_Panics_iff)
next
  assume "snd (Remove c pick order key) = Returns r"
  then show "fst (pool_Get (pool c) pick) = None
      \<or> (\<exists>item. fst (pool_Get (pool c) pick) = Some (ValElem item))"
    by (cases "lock c")
      (auto simp: Remove_def Let_def case_prod_beta split: option.splits iface.splits)
next
  assume a: "reachable c \<and> lock c = Free \<and> elements c key' = None"
  let ?c = "fst (Put c now1 now2 now3 order' key' val)"
  from a have "reachable (exec (CallPut now1 now2 now3 order' key' val) c)"
    by (simp only: reachable_exec)
  then show "reachable ?c" by simp
  from a show "snd (Put c now1 now2 now3 order' key' val) = Returns None"
    by (simp add: Put_Free Let_def)
  from a have absent: "elements (after_evict c now3 order') key' = None"
    by (simp add: after_evict_absent)
  with a have "\<exists>q. fst (pool_Get (pool ?c) (Some 0)) = Some (PtrElem q)"
    by (simp add: Put_Free Let_def pool_Get_def)
  moreover from a have "lock ?c = Free" by (simp add: Put_lock)
  ultimately show "snd (Remove ?c (Some 0) order key) = Panics"
    by (simp add: Remove_Panics_iff)
qed

theorem Remove_panics_on_pointer_witness:
  "reachable cache1 \<and> lock cache1 = Free \<and> elements cache1 ''a'' = None \<and>
   reachable cache1_a \<and> lock cache1_a = Free \<and>
   fst (pool_Get (pool cache1_a) (Some 0))
     = Some (PtrElem \<lparr>K = [], V = Some 1, Expiration = 600000000000, LastHit = 0\<rparr>) \<and>
   snd (Remove cache1_a (Some 0) [''a''] ''a'') = Panics \<and>
   snd (Remove cache1_a None [''a''] ''a'') = Returns (True, None) \<and>
   fst (pool_Get (pool cache1_a) None) = None"
proof -
  have h: "lock cache1 = Free" "elements cache1 ''a'' = None"
    by (simp_all add: cache1_eq)
  have l: "lock cache1_a = Free" by (simp add: cache1_a_eq)
  have p: "fst (pool_Get (pool cache1_a) (Some 0))
      = Some (PtrElem \<lparr>K = [], V = Some 1, Expiration = 600000000000, LastHit = 0\<rparr>)"
    by (simp add: cache1_a_eq pool_Get_def)
  have r: "snd (Remove cache1_a None [''a''] ''a'') = Returns (True, None)"
    by (simp add: cache1_a_eq Remove_def pool_Get_def Let_def)
  have n: "fst (pool_Get (pool cache1_a) None) = None"
    using r Remove_panics_on_pointer [of cache1_a None "[''a'']" "''a''" "(True, None)"]
    by (simp add: pool_Get_def)
  have "snd (Remove cache1_a (Some 0) [''a''] ''a'') = Panics"
    using l p Remove_panics_on_pointer [of cache1_a "Some 0" "[''a'']" "''a''"] by simp
  moreover have "reachable cache1_a"
    using h reachable_cache1
      Remove_panics_on_pointer [of cache1 None "[''a'']" "''a''" "(True, None)" "''a''" 0 0 0 "[]" "Some 1"]
    by (simp add: cache1_a_def)
  ultimately show ?thesis using h l p r n reachable_cache1 by simp
qed

subsection \<open>C10: the pool in Get\<close>

text \<open>
  C10: on every cache a program can reach, the pool holds only \<open>*Elem\<close> pointers
  whose \<open>K\<close> field is empty, so the early \<open>return item.V, nil\<close> of \<open>Get\<close> is never
  taken, whatever the pool hands out; the value \<open>Get\<close> returns is the one the elements
  map holds for the key, or \<open>nil\<close>.
\<close>

theorem Get_pool_path_unreachable:
  assumes "reachable c"
  shows "pool_ptrs (pool c) \<and>
    Get_pooled (fst (pool_Get (pool c) pick)) key = None \<and>
    snd (Get c pick now1 now2 key) =
      (if lock c = Writer then Blocks
       else Returns (case elements c key of None \<Rightarrow> None | Some e \<Rightarrow> V e))"
proof -
  from assms have p: "pool_ptrs (pool c)" by (rule reachable_pool_ptrs)
  then show ?thesis by (simp add: Get_pooled_ptrs Get_unpooled)
qed

theorem Get_pool_path_unreachable_witness:
  "reachable cache1_a \<and> pool_ptrs (pool cache1_a) \<and>
   Get_pooled (fst (pool_Get (pool cache1_a) (Some 0))) ''a'' = None \<and>
   snd (Get cache1_a (Some 0) 7 8 ''a'') = Returns (Some 1)"
  using Get_pool_path_unreachable [OF reachable_cache1_a, of "Some 0" "''a''" 7 8]
    reachable_cache1_a
  by (simp add: cache1_a_eq)

end
